theory Spec2Isabelle
  imports Complex_Main "HOL-Library.Word"
begin

unbundle bit_operations_syntax

section \<open>KLV codec primitives (klvdata/common.py)\<close>

text \<open>
  A shallow embedding of the functions of \<^verbatim>\<open>common.py\<close>. A Python \<^verbatim>\<open>bytes\<close> object is a
  list of 8-bit words, a Python \<^verbatim>\<open>int\<close> is an \<open>int\<close>, and a function that can raise returns
  \<open>error + 'a\<close> with the exception on the left. The calls of \<^verbatim>\<open>print\<close> write to the
  standard output only and are left out.
\<close>

type_synonym byte = "8 word"

datatype error =
    ValueError
  | OverflowError
  | ZeroDivisionError
  | StructError
  | IndexError
  | TypeError

subsection \<open>Integers and bytes\<close>

text \<open>
  \<^verbatim>\<open>int.from_bytes(b, byteorder='big', signed=s)\<close>: the unsigned reading accumulates
  the bytes from the left; the signed reading subtracts \<open>2 ^ (8 * length b)\<close> when the top
  bit is set. The empty buffer reads as 0 either way.
\<close>

definition from_bytes_unsigned :: "byte list \<Rightarrow> int" where
  "from_bytes_unsigned bs = foldl (\<lambda>acc b. acc * 256 + uint b) 0 bs"

definition from_bytes :: "byte list \<Rightarrow> bool \<Rightarrow> int" where
  "from_bytes bs sgnd =
     (let u = from_bytes_unsigned bs in
      if sgnd \<and> 2 ^ (8 * length bs) \<le> 2 * u then u - 2 ^ (8 * length bs) else u)"

text \<open>
  \<^verbatim>\<open>n.to_bytes(length, byteorder='big', signed=s)\<close>: the \<open>length\<close> low-order bytes of the
  two's complement of \<open>n\<close>, most significant first. Python raises OverflowError when the
  number does not fit: a negative number when unsigned, a number of \<open>256 ^ length\<close> or
  more, or one outside the signed range \<open>- 2 ^ (8 * length - 1) \<le> n < 2 ^ (8 * length - 1)\<close>
  (written with both sides doubled, so that length 0 admits 0 only).
\<close>

fun be_bytes :: "nat \<Rightarrow> int \<Rightarrow> byte list" where
  "be_bytes 0 v = []"
| "be_bytes (Suc n) v = be_bytes n (v div 256) @ [word_of_int (v mod 256)]"

definition to_bytes :: "int \<Rightarrow> nat \<Rightarrow> bool \<Rightarrow> error + byte list" where
  "to_bytes v len sgnd =
     (if sgnd then
        (if - (2 ^ (8 * len)) \<le> 2 * v \<and> 2 * v < 2 ^ (8 * len)
         then Inr (be_bytes len (v mod 2 ^ (8 * len)))
         else Inl OverflowError)
      else
        (if v < 0 then Inl OverflowError
         else if v < 2 ^ (8 * len) then Inr (be_bytes len v)
         else Inl OverflowError))"

text \<open>
  The integers that \<open>len\<close> bytes can hold: \<open>0 .. 256 ^ len - 1\<close> unsigned, and
  \<open>- (256 ^ len) div 2 .. 256 ^ len div 2 - 1\<close> in two's complement.
\<close>

definition fits_in :: "int \<Rightarrow> nat \<Rightarrow> bool \<Rightarrow> bool" where
  "fits_in v len sgnd =
     (if sgnd then - (2 ^ (8 * len)) \<le> 2 * v \<and> 2 * v < 2 ^ (8 * len)
      else 0 \<le> v \<and> v < 2 ^ (8 * len))"

text \<open>\<^verbatim>\<open>bytes_to_int(value, signed=False)\<close> and \<^verbatim>\<open>int_to_bytes(value, length=1, signed=False)\<close>.\<close>

definition bytes_to_int :: "byte list \<Rightarrow> bool \<Rightarrow> int" where
  "bytes_to_int v sgnd = from_bytes v sgnd"

definition int_to_bytes :: "int \<Rightarrow> nat \<Rightarrow> bool \<Rightarrow> error + byte list" where
  "int_to_bytes v len sgnd = to_bytes v len sgnd"

text \<open>
  \<^verbatim>\<open>n.bit_length()\<close>: the number of binary digits of the absolute value of \<open>n\<close>.
\<close>

fun bit_length_nat :: "nat \<Rightarrow> nat" where
  "bit_length_nat n = (if n = 0 then 0 else Suc (bit_length_nat (n div 2)))"

declare bit_length_nat.simps [simp del]

definition bit_length :: "int \<Rightarrow> int" where
  "bit_length v = int (bit_length_nat (nat \<bar>v\<bar>))"

text \<open>
  Indexing \<^verbatim>\<open>xs[i]\<close> raises IndexError out of range and counts a negative index from the
  end; a slice \<^verbatim>\<open>xs[i:j]\<close> never raises: each bound is counted from the end when negative
  and clamped to the list.
\<close>

definition py_index :: "'a list \<Rightarrow> int \<Rightarrow> error + 'a" where
  "py_index xs i =
     (if 0 \<le> i \<and> i < int (length xs) then Inr (xs ! nat i)
      else if i < 0 \<and> 0 \<le> int (length xs) + i then Inr (xs ! nat (int (length xs) + i))
      else Inl IndexError)"

definition slice_bound :: "'a list \<Rightarrow> int \<Rightarrow> nat" where
  "slice_bound xs k =
     (if k < 0 then nat (max 0 (int (length xs) + k)) else min (length xs) (nat k))"

definition py_slice :: "'a list \<Rightarrow> int \<Rightarrow> int \<Rightarrow> 'a list" where
  "py_slice xs i j = take (slice_bound xs j - slice_bound xs i) (drop (slice_bound xs i) xs)"

subsection \<open>BER length codec\<close>

text \<open>
  \<^verbatim>\<open>ber_decode\<close> tests the unsigned reading of the whole buffer against 128, not its first
  byte. \<^verbatim>\<open>value[1:]\<close> is the slice from index 1 to the end.
\<close>

definition ber_decode :: "byte list \<Rightarrow> error + int" where
  "ber_decode v =
     (if bytes_to_int v False < 128 then
        (if length v > 1 then Inl ValueError
         else Inr (bytes_to_int v False))
      else
        (case py_index v 0 of
           Inl e \<Rightarrow> Inl e
         | Inr b0 \<Rightarrow>
             if int (length v) \<noteq> uint b0 - 127 then Inl ValueError
             else Inr (bytes_to_int (py_slice v 1 (int (length v))) False)))"

definition ber_encode :: "int \<Rightarrow> error + byte list" where
  "ber_encode v =
     (if v < 128 then int_to_bytes v 1 False
      else
        (let byte_length = (bit_length v - 1) div 8 + 1 in
         case int_to_bytes (byte_length + 128) 1 False of
           Inl e \<Rightarrow> Inl e
         | Inr marker \<Rightarrow>
             (case int_to_bytes v (nat byte_length) False of
                Inl e \<Rightarrow> Inl e
              | Inr payload \<Rightarrow> Inr (marker @ payload))))"

subsection \<open>Hex strings\<close>

text \<open>
  A Python \<^verbatim>\<open>str\<close> is modelled as a list of characters with code points 0 to 255.
  \<^verbatim>\<open>str.isalnum\<close> is true of the ASCII digits and letters and of the letters and numeric
  characters of the Latin-1 block, as the Unicode character database classifies them.
\<close>

definition isalnum :: "char \<Rightarrow> bool" where
  "isalnum c =
     (let n = of_char c :: nat in
      (48 \<le> n \<and> n \<le> 57) \<or> (65 \<le> n \<and> n \<le> 90) \<or> (97 \<le> n \<and> n \<le> 122) \<or>
      n = 170 \<or> n = 178 \<or> n = 179 \<or> n = 181 \<or> n = 185 \<or> n = 186 \<or>
      (188 \<le> n \<and> n \<le> 190) \<or> (192 \<le> n \<and> n \<le> 214) \<or> (216 \<le> n \<and> n \<le> 246) \<or>
      (248 \<le> n \<and> n \<le> 255))"

text \<open>
  \<^verbatim>\<open>bytes.fromhex\<close> skips ASCII whitespace before a pair of digits, then wants two
  hexadecimal digits next to each other; anything else raises ValueError.
\<close>

definition hex_digit_value :: "char \<Rightarrow> nat option" where
  "hex_digit_value c =
     (let n = of_char c :: nat in
      if 48 \<le> n \<and> n \<le> 57 then Some (n - 48)
      else if 65 \<le> n \<and> n \<le> 70 then Some (n - 55)
      else if 97 \<le> n \<and> n \<le> 102 then Some (n - 87)
      else None)"

definition is_space :: "char \<Rightarrow> bool" where
  "is_space c = (let n = of_char c :: nat in n = 32 \<or> (9 \<le> n \<and> n \<le> 13))"

fun fromhex :: "string \<Rightarrow> error + byte list" where
  "fromhex [] = Inr []"
| "fromhex [c] = (if is_space c then Inr [] else Inl ValueError)"
| "fromhex (c # d # cs) =
     (if is_space c then fromhex (d # cs)
      else
        (case hex_digit_value c of
           None \<Rightarrow> Inl ValueError
         | Some hi \<Rightarrow>
             (case hex_digit_value d of
                None \<Rightarrow> Inl ValueError
              | Some lo \<Rightarrow>
                  (case fromhex cs of
                     Inl e \<Rightarrow> Inl e
                   | Inr bs \<Rightarrow> Inr (of_nat (hi * 16 + lo) # bs)))))"

definition hexstr_to_bytes :: "string \<Rightarrow> error + byte list" where
  "hexstr_to_bytes v = fromhex (filter isalnum v)"

text \<open>
  What the specification calls interpreting a string as hex digit pairs: each pair of
  digits is one byte, the first digit its high half.
\<close>

definition hex_digit :: "char \<Rightarrow> nat" where
  "hex_digit c = (case hex_digit_value c of Some n \<Rightarrow> n | None \<Rightarrow> 0)"

fun hex_pairs :: "string \<Rightarrow> byte list" where
  "hex_pairs (c # d # cs) = of_nat (hex_digit c * 16 + hex_digit d) # hex_pairs cs"
| "hex_pairs cs = []"

text \<open>
  \<^verbatim>\<open>"{:02X}".format(byte)\<close> writes a byte as two upper-case hexadecimal digits, and
  \<^verbatim>\<open>sep.join\<close> puts the separator between the pieces.
\<close>

definition upper_hex_digit :: "nat \<Rightarrow> char" where
  "upper_hex_digit n = (if n < 10 then char_of (48 + n) else char_of (55 + n))"

definition format_02X :: "byte \<Rightarrow> string" where
  "format_02X b = [upper_hex_digit (unat b div 16), upper_hex_digit (unat b mod 16)]"

fun join :: "string \<Rightarrow> string list \<Rightarrow> string" where
  "join sep [] = []"
| "join sep [x] = x"
| "join sep (x # y # ys) = x @ sep @ join sep (y # ys)"

definition bytes_to_hexstr :: "byte list \<Rightarrow> string \<Rightarrow> string \<Rightarrow> string" where
  "bytes_to_hexstr v start sep = start @ join sep (map format_02X v)"

subsection \<open>Linear scaling\<close>

text \<open>
  The numbers of \<^verbatim>\<open>linear_map\<close> are modelled as exact rationals. Python computes
  \<^verbatim>\<open>slope\<close> and \<^verbatim>\<open>dst_value\<close> in binary floating point whenever \<open>/\<close> is applied to ints or
  floats, so the number this model returns is the exact value of the expression, of which
  Python's result is a rounding. The comparisons of the arguments and the test of the
  divisor against zero, which decide the branch taken, are the same in both. A zero divisor
  raises ZeroDivisionError. The two \<^verbatim>\<open>print\<close> diagnostics change no result.
\<close>

definition linear_map :: "rat \<Rightarrow> rat \<times> rat \<Rightarrow> rat \<times> rat \<Rightarrow> error + rat option" where
  "linear_map src_value src_domain dst_range =
     (case (src_domain, dst_range) of
        ((src_min, src_max), (dst_min, dst_max)) \<Rightarrow>
          if src_value < src_min \<or> src_value > src_max then Inr None
          else if src_max - src_min = 0 then Inl ZeroDivisionError
          else
            (let slope = (dst_max - dst_min) / (src_max - src_min);
                 dst_value = slope * (src_value - src_min) + dst_min
             in Inr (Some dst_value)))"

text \<open>
  \<^verbatim>\<open>round(x)\<close> with one argument returns the nearest int, the even one at a tie.
\<close>

definition py_round :: "rat \<Rightarrow> int" where
  "py_round x =
     (let f = \<lfloor>x\<rfloor>; d = x - of_int f in
      if d < 1 / 2 then f
      else if 1 / 2 < d then f + 1
      else if even f then f else f + 1)"

text \<open>
  \<^verbatim>\<open>float_to_bytes(value, _domain, _range)\<close>: the integer domain is a pair of ints (the code
  calls \<^verbatim>\<open>bit_length\<close> on its upper bound). \<^verbatim>\<open>round(None)\<close> raises TypeError.
\<close>

definition float_to_bytes :: "rat \<Rightarrow> int \<times> int \<Rightarrow> rat \<times> rat \<Rightarrow> error + byte list" where
  "float_to_bytes v int_domain phys_range =
     (case (phys_range, int_domain) of
        ((src_min, src_max), (dst_min, dst_max)) \<Rightarrow>
          (let len = (bit_length dst_max + 7) div 8 in
           case linear_map v (src_min, src_max) (of_int dst_min, of_int dst_max) of
             Inl e \<Rightarrow> Inl e
           | Inr None \<Rightarrow> Inl TypeError
           | Inr (Some dst_value) \<Rightarrow> to_bytes (py_round dst_value) (nat len) (dst_min < 0)))"

subsection \<open>Packet checksum\<close>

text \<open>
  \<^verbatim>\<open>unpack(">nH", buf)\<close> reads \<open>n\<close> big-endian 16-bit words; it raises \<^verbatim>\<open>struct.error\<close> when the
  count in the format is negative (the format is then malformed) or the buffer is not
  \<open>2 * n\<close> bytes long. \<^verbatim>\<open>pack('>H', v)\<close> raises it when \<open>v\<close> is not in \<open>0 .. 65535\<close>.
\<close>

fun words_of :: "byte list \<Rightarrow> int list" where
  "words_of (hi # lo # rest) = (uint hi * 256 + uint lo) # words_of rest"
| "words_of rest = []"

definition unpack_H :: "int \<Rightarrow> byte list \<Rightarrow> error + int list" where
  "unpack_H n buf =
     (if n < 0 then Inl StructError
      else if int (length buf) \<noteq> 2 * n then Inl StructError
      else Inr (words_of buf))"

definition pack_H :: "int \<Rightarrow> error + byte list" where
  "pack_H v =
     (if 0 \<le> v \<and> v \<le> 65535 then Inr [word_of_int (v div 256), word_of_int (v mod 256)]
      else Inl StructError)"

definition packet_checksum :: "byte list \<Rightarrow> error + byte list" where
  "packet_checksum data =
     (let len = int (length data) - 2;
          word_size = len div 2;
          md = len mod 2
      in case unpack_H word_size (py_slice data 0 (len - md)) of
           Inl e \<Rightarrow> Inl e
         | Inr ws \<Rightarrow>
             (if md \<noteq> 0 then
                (case py_index data (len - 1) of
                   Inl e \<Rightarrow> Inl e
                 | Inr b \<Rightarrow> pack_H ((sum_list ws + push_bit 8 (uint b)) AND 0xFFFF))
              else pack_H (sum_list ws AND 0xFFFF)))"

text \<open>
  The checksum in the words of the specification: the sum of the big-endian 16-bit
  words of the payload, an odd last byte counting as the high byte of one more word.
\<close>

fun word_sum :: "byte list \<Rightarrow> int" where
  "word_sum (hi # lo # rest) = (uint hi * 256 + uint lo) + word_sum rest"
| "word_sum [b] = uint b * 256"
| "word_sum [] = 0"

section \<open>Properties\<close>

subsection \<open>Facts about the byte conversions\<close>

lemma from_bytes_unsigned_Nil: "from_bytes_unsigned [] = 0"
  by (simp add: from_bytes_unsigned_def)

lemma from_bytes_unsigned_snoc:
  "from_bytes_unsigned (bs @ [b]) = from_bytes_unsigned bs * 256 + uint b"
  by (simp add: from_bytes_unsigned_def)

lemma uint_byte_less: "uint (b :: byte) < 256"
  using uint_bounded [of b] by simp

lemma from_bytes_unsigned_nonneg: "0 \<le> from_bytes_unsigned bs"
proof (induction bs rule: rev_induct)
  case Nil
  show ?case by (simp add: from_bytes_unsigned_Nil)
next
  case (snoc b bs)
  then show ?case by (simp add: from_bytes_unsigned_snoc)
qed

lemma from_bytes_unsigned_less: "from_bytes_unsigned bs < 256 ^ length bs"
proof (induction bs rule: rev_induct)
  case Nil
  show ?case by (simp add: from_bytes_unsigned_Nil)
next
  case (snoc b bs)
  have "from_bytes_unsigned bs + 1 \<le> 256 ^ length bs"
    using snoc.IH by simp
  then have "(from_bytes_unsigned bs + 1) * 256 \<le> 256 ^ length bs * 256"
    by (rule mult_right_mono) simp
  moreover have "uint b < 256"
    by (rule uint_byte_less)
  ultimately show ?case
    by (simp add: from_bytes_unsigned_snoc algebra_simps)
qed

lemma length_be_bytes: "length (be_bytes n v) = n"
  by (induction n arbitrary: v) simp_all

lemma be_bytes_from_bytes_unsigned: "be_bytes (length bs) (from_bytes_unsigned bs) = bs"
proof (induction bs rule: rev_induct)
  case Nil
  show ?case by simp
next
  case (snoc b bs)
  have d: "(from_bytes_unsigned bs * 256 + uint b) div 256 = from_bytes_unsigned bs"
    using uint_byte_less [of b] by simp
  have m: "(from_bytes_unsigned bs * 256 + uint b) mod 256 = uint b"
    using uint_byte_less [of b] by simp
  have "be_bytes (Suc (length bs)) (from_bytes_unsigned bs * 256 + uint b) =
          be_bytes (length bs) (from_bytes_unsigned bs) @ [word_of_int (uint b)]"
    by (simp only: be_bytes.simps d m)
  then show ?case
    by (simp add: from_bytes_unsigned_snoc snoc.IH)
qed

lemma from_bytes_unsigned_be_bytes:
  "from_bytes_unsigned (be_bytes n v) = v mod 256 ^ n"
proof (induction n arbitrary: v)
  case 0
  show ?case by (simp add: from_bytes_unsigned_Nil)
next
  case (Suc n)
  have u: "uint (word_of_int (v mod 256) :: byte) = v mod 256"
    by (simp add: uint_word_of_int take_bit_eq_mod)
  have "from_bytes_unsigned (be_bytes (Suc n) v) = (v div 256) mod 256 ^ n * 256 + v mod 256"
    by (simp add: from_bytes_unsigned_snoc Suc.IH u)
  also have "\<dots> = v mod 256 ^ Suc n"
    by (simp add: zmod_zmult2_eq)
  finally show ?case .
qed

lemma power_256_eq: "(256 :: int) ^ n = 2 ^ (8 * n)"
  by (simp add: power_mult)

subsection \<open>Round trip of the integer conversions\<close>

text \<open>
  C6. For every byte buffer \<open>b\<close> of length 1 to 9, serialising the unsigned big-endian
  reading of \<open>b\<close> into \<open>length b\<close> bytes gives \<open>b\<close> back, and does not raise.
\<close>

theorem int_to_bytes_bytes_to_int:
  assumes "1 \<le> length b" and "length b \<le> 9"
  shows "int_to_bytes (bytes_to_int b False) (length b) False = Inr b"
proof -
  have lo: "0 \<le> from_bytes_unsigned b"
    by (rule from_bytes_unsigned_nonneg)
  have "from_bytes_unsigned b < 256 ^ length b"
    by (rule from_bytes_unsigned_less)
  then have hi: "from_bytes_unsigned b < 2 ^ (8 * length b)"
    by (simp add: power_256_eq)
  show ?thesis
    using lo hi by (simp add: int_to_bytes_def to_bytes_def bytes_to_int_def from_bytes_def be_bytes_from_bytes_unsigned)
qed

theorem int_to_bytes_bytes_to_int_witness:
  "int_to_bytes (bytes_to_int [0x12, 0xFF :: byte] False) (length [0x12, 0xFF :: byte]) False
     = Inr [0x12, 0xFF]"
  using int_to_bytes_bytes_to_int [of "[0x12, 0xFF]"] by simp

subsection \<open>Facts about \<open>bit_length\<close>\<close>

lemma bit_length_nat_0: "bit_length_nat 0 = 0"
  by (simp add: bit_length_nat.simps)

lemma bit_length_nat_pos: "0 < n \<Longrightarrow> bit_length_nat n = Suc (bit_length_nat (n div 2))"
  by (subst bit_length_nat.simps) simp

lemma bit_length_nat_upper: "n < 2 ^ bit_length_nat n"
proof (induction n rule: bit_length_nat.induct)
  case (1 n)
  show ?case
  proof (cases "n = 0")
    case True
    then show ?thesis by (simp add: bit_length_nat_0)
  next
    case False
    then have "n div 2 < 2 ^ bit_length_nat (n div 2)"
      using "1.IH" by simp
    then have "n < 2 * 2 ^ bit_length_nat (n div 2)"
      by linarith
    then show ?thesis
      using False by (simp add: bit_length_nat_pos)
  qed
qed

lemma bit_length_nat_lower: "0 < n \<Longrightarrow> 2 ^ (bit_length_nat n - 1) \<le> n"
proof (induction n rule: bit_length_nat.induct)
  case (1 n)
  show ?case
  proof (cases "n div 2 = 0")
    case True
    then have "n = 1" using "1.prems" by linarith
    then show ?thesis
      by (simp add: bit_length_nat_pos bit_length_nat_0)
  next
    case False
    then have pos: "0 < n div 2" by simp
    have "2 ^ (bit_length_nat (n div 2) - 1) \<le> n div 2"
      using "1.IH" "1.prems" pos by simp
    then have "2 * 2 ^ (bit_length_nat (n div 2) - 1) \<le> n"
      by linarith
    moreover have "bit_length_nat (n div 2) = Suc (bit_length_nat (n div 2) - 1)"
      using pos by (simp add: bit_length_nat_pos)
    ultimately have "2 ^ bit_length_nat (n div 2) \<le> n"
      by (metis power_Suc)
    then show ?thesis
      using "1.prems" by (simp add: bit_length_nat_pos)
  qed
qed

lemma bit_length_nonneg: "0 \<le> bit_length v"
  by (simp add: bit_length_def)

lemma bit_length_upper: "0 \<le> v \<Longrightarrow> v < 2 ^ nat (bit_length v)"
proof -
  assume "0 \<le> v"
  have "nat v < 2 ^ bit_length_nat (nat v)"
    by (rule bit_length_nat_upper)
  then have "int (nat v) < int (2 ^ bit_length_nat (nat v))"
    by (rule iffD2 [OF of_nat_less_iff])
  then show ?thesis
    using \<open>0 \<le> v\<close> by (simp add: bit_length_def)
qed

lemma bit_length_lower: "0 < v \<Longrightarrow> 2 ^ nat (bit_length v - 1) \<le> v"
proof -
  assume "0 < v"
  then have "2 ^ (bit_length_nat (nat v) - 1) \<le> nat v"
    by (intro bit_length_nat_lower) simp
  then have "int (2 ^ (bit_length_nat (nat v) - 1)) \<le> int (nat v)"
    by (rule iffD2 [OF of_nat_le_iff])
  moreover have "nat (int (bit_length_nat (nat v)) - 1) = bit_length_nat (nat v) - 1"
    by simp
  ultimately show ?thesis
    using \<open>0 < v\<close> by (simp add: bit_length_def)
qed

lemma bit_length_ge_iff:
  assumes "0 \<le> v"
  shows "2 ^ n \<le> v \<longleftrightarrow> int n < bit_length v"
proof
  assume le: "2 ^ n \<le> v"
  show "int n < bit_length v"
  proof (rule ccontr)
    assume "\<not> int n < bit_length v"
    then have "nat (bit_length v) \<le> n" by simp
    then have "(2::int) ^ nat (bit_length v) \<le> 2 ^ n"
      by (rule power_increasing) simp
    with bit_length_upper [OF assms] le show False by linarith
  qed
next
  assume lt: "int n < bit_length v"
  then have pos: "0 < v"
    using assms by (cases "v = 0") (simp_all add: bit_length_def bit_length_nat_0)
  have "n \<le> nat (bit_length v - 1)" using lt by simp
  then have "(2::int) ^ n \<le> 2 ^ nat (bit_length v - 1)"
    by (rule power_increasing) simp
  with bit_length_lower [OF pos] show "2 ^ n \<le> v" by linarith
qed

lemma byte_length_eq: "0 < b \<Longrightarrow> (b - 1) div 8 + 1 = (b + 7) div (8::int)"
  by presburger

lemma byte_width_bounds:
  assumes "128 \<le> v"
  defines "w \<equiv> (bit_length v - 1) div 8 + 1"
  shows "1 \<le> w" and "256 ^ (nat w - 1) \<le> v" and "v < 256 ^ nat w"
    and "w = (bit_length v + 7) div 8"
proof -
  have nonneg: "0 \<le> v" using assms by simp
  have "(2::int) ^ 7 \<le> v" using assms by simp
  then have b8: "7 < bit_length v"
    using bit_length_ge_iff [OF nonneg, of 7] by simp
  then show w1: "1 \<le> w" unfolding w_def by presburger
  show "w = (bit_length v + 7) div 8"
    unfolding w_def using b8 by presburger
  have lo_eq: "int (8 * (nat w - 1)) = 8 * (w - 1)"
    using w1 by simp
  have "8 * (w - 1) < bit_length v"
    unfolding w_def using b8 by presburger
  then have "int (8 * (nat w - 1)) < bit_length v"
    using lo_eq by simp
  then have "(2::int) ^ (8 * (nat w - 1)) \<le> v"
    using bit_length_ge_iff [OF nonneg] by simp
  then show "256 ^ (nat w - 1) \<le> v"
    by (simp add: power_256_eq)
  have hi_eq: "int (8 * nat w) = 8 * w"
    using w1 by simp
  have "bit_length v \<le> 8 * w"
    unfolding w_def using b8 by presburger
  then have "\<not> int (8 * nat w) < bit_length v"
    using hi_eq by simp
  then have "\<not> (2::int) ^ (8 * nat w) \<le> v"
    using bit_length_ge_iff [OF nonneg] by simp
  then show "v < 256 ^ nat w"
    by (simp add: power_256_eq)
qed

subsection \<open>Facts about the BER codec\<close>

lemma from_bytes_unsigned_Cons:
  "from_bytes_unsigned (b # bs) = uint b * 256 ^ length bs + from_bytes_unsigned bs"
proof (induction bs rule: rev_induct)
  case Nil
  show ?case by (simp add: from_bytes_unsigned_def)
next
  case (snoc x xs)
  have "from_bytes_unsigned (b # xs @ [x]) = from_bytes_unsigned ((b # xs) @ [x])"
    by simp
  also have "\<dots> = from_bytes_unsigned (b # xs) * 256 + uint x"
    by (rule from_bytes_unsigned_snoc)
  finally show ?case
    by (simp add: snoc.IH from_bytes_unsigned_snoc algebra_simps)
qed

lemma py_index_0_Cons: "py_index (x # xs) 0 = Inr x"
  by (simp add: py_index_def)

lemma py_slice_tail: "py_slice (x # xs) 1 (int (length (x # xs))) = xs"
  by (simp add: py_slice_def slice_bound_def)

lemma to_bytes_unsigned_ok:
  "0 \<le> v \<Longrightarrow> v < 256 ^ n \<Longrightarrow> to_bytes v n False = Inr (be_bytes n v)"
  by (simp add: to_bytes_def power_256_eq)

lemma be_bytes_1: "be_bytes (Suc 0) v = [word_of_int (v mod 256)]"
  by simp

lemma word_of_int_mod_256: "(word_of_int (v mod 256) :: byte) = word_of_int v"
  by (simp add: word_of_int_eq_iff take_bit_eq_mod)

lemma uint_byte_of_small: "0 \<le> v \<Longrightarrow> v < 256 \<Longrightarrow> uint (word_of_int v :: byte) = v"
  by (simp add: uint_word_of_int)

lemma ber_decode_short:
  assumes "0 \<le> v" and "v < 128"
  shows "ber_decode [word_of_int v] = Inr v"
proof -
  have "uint (word_of_int v :: byte) = v"
    using assms by (intro uint_byte_of_small) simp_all
  then have "from_bytes_unsigned [word_of_int v :: byte] = v"
    by (simp add: from_bytes_unsigned_def)
  then show ?thesis
    using assms by (simp add: ber_decode_def bytes_to_int_def from_bytes_def)
qed

lemma ber_encode_short:
  assumes "0 \<le> v" and "v < 128"
  shows "ber_encode v = Inr [word_of_int v]"
  using assms
  by (simp add: ber_encode_def int_to_bytes_def to_bytes_def word_of_int_mod_256)

lemma ber_decode_long:
  assumes w: "1 \<le> w" "w \<le> 127" and v: "0 \<le> v" "v < 256 ^ nat w"
  shows "ber_decode (word_of_int (w + 128) # be_bytes (nat w) v) = Inr v"
proof -
  define m :: byte where "m = word_of_int (w + 128)"
  define p where "p = be_bytes (nat w) v"
  have um: "uint m = w + 128"
    unfolding m_def using w by (intro uint_byte_of_small) simp_all
  have lp: "length p = nat w"
    by (simp add: p_def length_be_bytes)
  have fp: "from_bytes_unsigned p = v"
    using v by (simp add: p_def from_bytes_unsigned_be_bytes)
  have "(1::int) \<le> 256 ^ nat w" by simp
  then have "128 * 1 \<le> (w + 128) * 256 ^ nat w"
    using w by (intro mult_mono) simp_all
  then have big: "\<not> from_bytes_unsigned (m # p) < 128"
    using v by (simp add: from_bytes_unsigned_Cons um lp fp)
  have len: "int (length (m # p)) = uint m - 127"
    using w by (simp add: um lp)
  have sl: "py_slice (m # p) 1 (int (length (m # p))) = p"
    by (rule py_slice_tail)
  have "ber_decode (m # p) = Inr v"
    unfolding ber_decode_def bytes_to_int_def from_bytes_def
    using big len sl fp by (simp add: py_index_0_Cons)
  then show ?thesis
    by (simp only: m_def p_def)
qed

lemma ber_encode_long:
  assumes "128 \<le> v" and "v < 2 ^ 1016"
  defines "w \<equiv> (bit_length v + 7) div 8"
  shows "ber_encode v = Inr (word_of_int (w + 128) # be_bytes (nat w) v)"
    and "1 \<le> w" and "w \<le> 127" and "256 ^ (nat w - 1) \<le> v" and "v < 256 ^ nat w"
proof -
  have nonneg: "0 \<le> v" using assms by simp
  have weq: "(bit_length v - 1) div 8 + 1 = w"
    unfolding w_def by (rule byte_width_bounds(4) [OF assms(1)])
  show w1: "1 \<le> w"
    using byte_width_bounds(1) [OF assms(1)] weq by simp
  show lo: "256 ^ (nat w - 1) \<le> v"
    using byte_width_bounds(2) [OF assms(1)] weq by simp
  show hi: "v < 256 ^ nat w"
    using byte_width_bounds(3) [OF assms(1)] weq by simp
  have "\<not> 2 ^ 1016 \<le> v" using assms by simp
  then have "\<not> int 1016 < bit_length v"
    using bit_length_ge_iff [OF nonneg, of 1016] by simp
  then show w127: "w \<le> 127"
    unfolding w_def by simp
  define m :: byte where "m = word_of_int (w + 128)"
  have "to_bytes (w + 128) (Suc 0) False = Inr [word_of_int ((w + 128) mod 256)]"
    using w1 w127 by (simp add: to_bytes_def)
  then have marker: "int_to_bytes (w + 128) 1 False = Inr [m]"
    by (simp only: int_to_bytes_def m_def word_of_int_mod_256 One_nat_def)
  have payload: "int_to_bytes v (nat w) False = Inr (be_bytes (nat w) v)"
    unfolding int_to_bytes_def using nonneg hi by (rule to_bytes_unsigned_ok)
  have "\<not> v < 128" using assms(1) by simp
  then have "ber_encode v = Inr (m # be_bytes (nat w) v)"
    by (simp only: ber_encode_def Let_def weq marker payload if_False sum.case append.simps)
  then show "ber_encode v = Inr (word_of_int (w + 128) # be_bytes (nat w) v)"
    by (simp only: m_def)
qed

lemma ber_encode_overflow:
  assumes "2 ^ 1016 \<le> v"
  shows "ber_encode v = Inl OverflowError"
proof -
  have nonneg: "0 \<le> v"
    by (rule order_trans [OF _ assms]) simp
  have "(128::int) \<le> 2 ^ 1016" by simp
  then have big: "128 \<le> v" using assms by linarith
  have "int 1016 < bit_length v"
    using bit_length_ge_iff [OF nonneg, of 1016] assms by simp
  then have "256 \<le> (bit_length v - 1) div 8 + 1 + 128"
    by simp
  then have "int_to_bytes ((bit_length v - 1) div 8 + 1 + 128) 1 False = Inl OverflowError"
    by (simp add: int_to_bytes_def to_bytes_def)
  then show ?thesis
    unfolding ber_encode_def using big by (simp add: Let_def)
qed

lemma be_bytes_first: "be_bytes (Suc n) v ! 0 = word_of_int (v div 256 ^ n mod 256)"
proof (induction n arbitrary: v)
  case 0
  show ?case by simp
next
  case (Suc n)
  have "be_bytes (Suc (Suc n)) v ! 0 = (be_bytes (Suc n) (v div 256) @ [word_of_int (v mod 256)]) ! 0"
    by (simp only: be_bytes.simps)
  also have "\<dots> = be_bytes (Suc n) (v div 256) ! 0"
    by (simp only: nth_append length_be_bytes) simp
  also have "\<dots> = word_of_int (v div 256 div 256 ^ n mod 256)"
    by (rule Suc.IH)
  also have "v div 256 div 256 ^ n = v div 256 ^ Suc n"
    by (simp add: zdiv_zmult2_eq)
  finally show ?case .
qed

lemma be_bytes_no_leading_zero:
  assumes "1 \<le> n" and "256 ^ (n - 1) \<le> v" and "v < 256 ^ n"
  shows "be_bytes n v ! 0 \<noteq> 0"
proof -
  obtain k where n: "n = Suc k"
    using assms(1) by (cases n) simp_all
  have lo: "256 ^ k \<le> v" and hi: "v < 256 ^ k * 256"
    using assms by (simp_all add: n)
  have "0 < v div 256 ^ k"
    using lo pos_imp_zdiv_pos_iff [of "256 ^ k" v] by simp
  then have "1 \<le> v div 256 ^ k"
    by simp
  moreover have "v div 256 ^ k < 256"
  proof -
    have pos: "(0::int) < 256 ^ k" by simp
    have "256 ^ k * (v div 256 ^ k) + v mod 256 ^ k = v"
      by simp
    moreover have "0 \<le> v mod 256 ^ k"
      using pos by (rule pos_mod_sign)
    ultimately have "256 ^ k * (v div 256 ^ k) < 256 ^ k * 256"
      using hi by linarith
    then show ?thesis
      using pos by (simp only: mult_less_cancel_left_pos)
  qed
  ultimately have "uint (word_of_int (v div 256 ^ k mod 256) :: byte) \<noteq> 0"
    by (simp add: uint_word_of_int)
  then have "(word_of_int (v div 256 ^ k mod 256) :: byte) \<noteq> 0"
    by auto
  then show ?thesis
    unfolding n be_bytes_first .
qed

subsection \<open>BER round trip and minimality\<close>

text \<open>
  C1, as the code has it. For every \<open>v\<close> with \<open>0 \<le> v < 2 ^ 1016\<close>, \<open>ber_encode v\<close>
  returns a buffer that \<open>ber_decode\<close> reads back as \<open>v\<close>; the buffer is the single byte
  \<open>v\<close> when \<open>v < 128\<close>, and otherwise the marker byte \<open>128 + w\<close> followed by \<open>w\<close> payload
  bytes, \<open>w\<close> being \<open>bit_length v\<close> divided by 8 and rounded up, the first payload byte not
  zero. From \<open>2 ^ 1016\<close> on the marker no longer fits in one byte and \<open>ber_encode\<close> raises
  OverflowError.
\<close>

theorem ber_round_trip:
  "(0 \<le> v \<and> v < 2 ^ 1016 \<longrightarrow>
      (\<exists>bs. ber_encode v = Inr bs \<and> ber_decode bs = Inr v \<and>
         (v < 128 \<longrightarrow> bs = [word_of_int v]) \<and>
         (128 \<le> v \<longrightarrow>
            length bs = 1 + nat ((bit_length v + 7) div 8) \<and>
            bs ! 0 = word_of_int (128 + (bit_length v + 7) div 8) \<and>
            bs ! 1 \<noteq> 0))) \<and>
   (2 ^ 1016 \<le> v \<longrightarrow> ber_encode v = Inl OverflowError)"
proof (intro conjI impI)
  assume "2 ^ 1016 \<le> v"
  then show "ber_encode v = Inl OverflowError"
    by (rule ber_encode_overflow)
next
  assume range: "0 \<le> v \<and> v < 2 ^ 1016"
  show "\<exists>bs. ber_encode v = Inr bs \<and> ber_decode bs = Inr v \<and>
         (v < 128 \<longrightarrow> bs = [word_of_int v]) \<and>
         (128 \<le> v \<longrightarrow>
            length bs = 1 + nat ((bit_length v + 7) div 8) \<and>
            bs ! 0 = word_of_int (128 + (bit_length v + 7) div 8) \<and>
            bs ! 1 \<noteq> 0)"
  proof (cases "v < 128")
    case True
    then show ?thesis
      using range by (simp add: ber_encode_short ber_decode_short)
  next
    case False
    define w where "w = (bit_length v + 7) div 8"
    have big: "128 \<le> v" using False by simp
    have lt: "v < 2 ^ 1016" using range by simp
    note enc = ber_encode_long [OF big lt, folded w_def]
    have w1: "1 \<le> nat w" using enc(2) by simp
    have dec: "ber_decode (word_of_int (w + 128) # be_bytes (nat w) v) = Inr v"
      using enc(2) enc(3) _ enc(5) by (rule ber_decode_long) (use range in simp)
    have nz: "be_bytes (nat w) v ! 0 \<noteq> 0"
      using w1 enc(4) enc(5) by (rule be_bytes_no_leading_zero)
    have "length (word_of_int (w + 128) # be_bytes (nat w) v) = 1 + nat w"
      by (simp add: length_be_bytes)
    moreover have "(word_of_int (w + 128) # be_bytes (nat w) v) ! 1 \<noteq> 0"
      using nz by simp
    moreover have "(word_of_int (w + 128) # be_bytes (nat w) v) ! 0 = word_of_int (128 + w)"
      by (simp add: add.commute)
    ultimately show ?thesis
      using enc(1) dec False unfolding w_def by blast
  qed
qed

theorem ber_round_trip_witness:
  "ber_encode 300 = Inr [0x82, 0x01, 0x2C] \<and> ber_decode [0x82, 0x01, 0x2C] = Inr 300 \<and>
   ber_encode (2 ^ 1016) = Inl OverflowError"
proof -
  have r: "(0::int) \<le> 300 \<and> (300::int) < 2 ^ 1016"
    by simp
  have enc: "ber_encode 300 = Inr [0x82, 0x01, 0x2C]"
    by code_simp
  obtain bs where bs: "ber_encode 300 = Inr bs" "ber_decode bs = Inr 300"
    using ber_round_trip [of 300] r by blast
  have "bs = [0x82, 0x01, 0x2C]"
    using bs(1) enc by simp
  then have dec: "ber_decode [0x82, 0x01, 0x2C] = Inr 300"
    using bs(2) by simp
  have big: "(2::int) ^ 1016 \<le> 2 ^ 1016"
    by (rule order_refl)
  have ovf: "ber_encode (2 ^ 1016) = Inl OverflowError"
    using ber_round_trip [of "2 ^ 1016"] big by blast
  show ?thesis
    using enc dec ovf by (intro conjI)
qed

text \<open>
  The claim as the specification states it, for every non-negative \<open>v\<close>, fails at
  \<open>v = 2 ^ 1016\<close>: there \<open>ber_encode\<close> raises and nothing is left to decode.
\<close>

theorem ber_encode_overflow_counterexample:
  "(0::int) \<le> 2 ^ 1016 \<and> ber_encode (2 ^ 1016) = Inl OverflowError"
proof
  show "(0::int) \<le> 2 ^ 1016"
    by simp
  show "ber_encode (2 ^ 1016) = Inl OverflowError"
    by (rule ber_encode_overflow) (rule order_refl)
qed


subsection \<open>Malformed BER buffers\<close>

text \<open>
  On a non-empty buffer \<open>ber_decode\<close> does what the specification says: with a first
  byte below 128 it returns that byte when the buffer is one byte long and raises
  ValueError otherwise; with a first byte \<open>b\<close> of 128 or more it returns the big-endian
  reading of the rest when the rest is \<open>b - 128\<close> bytes long and raises ValueError
  otherwise.
\<close>

lemma ber_decode_Cons:
  "ber_decode (b # bs) =
     (if uint b < 128 then (if bs = [] then Inr (uint b) else Inl ValueError)
      else if int (length bs) = uint b - 128 then Inr (from_bytes_unsigned bs)
      else Inl ValueError)"
proof -
  let ?u = "from_bytes_unsigned (b # bs)"
  have u: "?u = uint b * 256 ^ length bs + from_bytes_unsigned bs"
    by (rule from_bytes_unsigned_Cons)
  have nonneg: "0 \<le> from_bytes_unsigned bs"
    by (rule from_bytes_unsigned_nonneg)
  have idx: "py_index (b # bs) 0 = Inr b"
    by (rule py_index_0_Cons)
  have sl: "py_slice (b # bs) 1 (int (length (b # bs))) = bs"
    by (rule py_slice_tail)
  have dec: "ber_decode (b # bs) =
      (if ?u < 128 then (if bs \<noteq> [] then Inl ValueError else Inr ?u)
       else if int (length bs) + 1 \<noteq> uint b - 127 then Inl ValueError
       else Inr (from_bytes_unsigned bs))"
    unfolding ber_decode_def bytes_to_int_def from_bytes_def idx sl
    by (simp add: Let_def)
  show ?thesis
  proof (cases "uint b < 128")
    case small: True
    show ?thesis
    proof (cases "bs = []")
      case True
      then show ?thesis
        unfolding dec using small
        by (simp add: from_bytes_unsigned_Cons from_bytes_unsigned_Nil)
    next
      case False
      have "uint b - 127 \<le> 0" using small by simp
      then have "int (length bs) + 1 \<noteq> uint b - 127" by linarith
      then show ?thesis
        unfolding dec using small False by simp
    qed
  next
    case large: False
    have "(1::int) \<le> 256 ^ length bs" by simp
    then have "128 * 1 \<le> uint b * 256 ^ length bs"
      using large by (intro mult_mono) simp_all
    then have "\<not> ?u < 128"
      using nonneg u by linarith
    then show ?thesis
      unfolding dec using large by simp
  qed
qed

text \<open>
  C5. The claim wants the empty buffer rejected (a short form is exactly one byte long).
  The code tests \<^verbatim>\<open>len(value) > 1\<close> only: the empty buffer reads as 0, which is below 128
  and not longer than one byte, so \<open>ber_decode\<close> returns 0 instead of raising.
\<close>

theorem ber_decode_empty: "ber_decode [] = Inr 0"
  by (simp add: ber_decode_def bytes_to_int_def from_bytes_def from_bytes_unsigned_def)

subsection \<open>Facts about the packet checksum\<close>

lemma and_0xFFFF: "(x::int) AND 0xFFFF = x mod 65536"
proof -
  have "(0xFFFF::int) = mask 16"
    by (simp add: mask_eq_exp_minus_1)
  then have "x AND 0xFFFF = take_bit 16 x"
    by (simp only: take_bit_eq_mask)
  then show ?thesis
    by (simp add: take_bit_eq_mod)
qed

lemma pack_H_mod:
  "pack_H (x mod 65536) =
     Inr [word_of_int (x mod 65536 div 256), word_of_int (x mod 65536 mod 256)]"
proof -
  have "0 \<le> x mod 65536" and "x mod 65536 < 65536"
    by simp_all
  then show ?thesis
    by (simp add: pack_H_def)
qed

lemma word_sum_split:
  "word_sum xs =
     sum_list (words_of (take (2 * (length xs div 2)) xs)) +
     (if odd (length xs) then uint (last xs) * 256 else 0)"
proof (induction xs rule: word_sum.induct)
  case (1 hi lo rest)
  have "odd (length rest) \<Longrightarrow> rest \<noteq> []"
    by auto
  with 1 show ?case by auto
next
  case (2 b)
  show ?case by simp
next
  case 3
  show ?case by simp
qed

lemma py_slice_prefix: "py_slice xs 0 (int k) = take k xs"
  by (simp add: py_slice_def slice_bound_def min_def)

lemma packet_checksum_payload:
  assumes "2 \<le> length data"
  shows "packet_checksum data = pack_H (word_sum (take (length data - 2) data) mod 65536)"
proof -
  define n where "n = length data - 2"
  define payload where "payload = take n data"
  have len: "int (length data) - 2 = int n"
    using assms by (simp add: n_def)
  have lp: "length payload = n"
    using assms by (simp add: payload_def n_def)
  have n_le: "n \<le> length data"
    by (simp add: n_def)
  have ws: "int n div 2 = int (n div 2)" and md: "int n mod 2 = int (n mod 2)"
    by (simp_all add: zdiv_int zmod_int)
  have sl: "py_slice data 0 (int n - int (n mod 2)) = take (2 * (n div 2)) payload"
  proof -
    have e: "int n - int (n mod 2) = int (2 * (n div 2))"
      by (simp add: of_nat_diff [symmetric] minus_mod_eq_mult_div del: of_nat_diff)
    have "2 * (n div 2) \<le> n" by simp
    then have "take (2 * (n div 2)) payload = take (2 * (n div 2)) data"
      by (simp add: payload_def min_def)
    moreover have "py_slice data 0 (int (2 * (n div 2))) = take (2 * (n div 2)) data"
      by (rule py_slice_prefix)
    ultimately show ?thesis
      by (simp only: e)
  qed
  have un: "unpack_H (int (n div 2)) (take (2 * (n div 2)) payload) =
              Inr (words_of (take (2 * (n div 2)) payload))"
  proof -
    have "2 * (n div 2) \<le> n" by simp
    then have "length (take (2 * (n div 2)) payload) = 2 * (n div 2)"
      by (simp add: lp)
    then show ?thesis
      by (simp add: unpack_H_def)
  qed
  show ?thesis
  proof (cases "odd n")
    case True
    then have m1: "n mod 2 = 1" by presburger
    have pos: "0 < n" using True by (cases n) simp_all
    have idx: "py_index data (int n - 1) = Inr (last payload)"
    proof -
      have "payload \<noteq> []" using lp pos by auto
      then have "last payload = payload ! (n - 1)"
        by (simp add: last_conv_nth lp)
      also have "\<dots> = data ! (n - 1)"
        using pos by (simp add: payload_def)
      finally have l: "last payload = data ! (n - 1)" .
      have "nat (int n - 1) = n - 1" by simp
      moreover have "0 \<le> int n - 1 \<and> int n - 1 < int (length data)"
        using pos n_le by linarith
      ultimately show ?thesis
        by (simp add: py_index_def l)
    qed
    have "packet_checksum data =
            pack_H ((sum_list (words_of (take (2 * (n div 2)) payload)) +
                     push_bit 8 (uint (last payload))) AND 0xFFFF)"
      unfolding packet_checksum_def Let_def len ws md sl un
      by (simp add: m1 idx)
    also have "\<dots> = pack_H (word_sum payload mod 65536)"
      using True by (simp add: and_0xFFFF word_sum_split [of payload] lp push_bit_eq_mult)
    finally show ?thesis
      by (simp only: payload_def n_def)
  next
    case False
    then have m0: "n mod 2 = 0" by presburger
    have "packet_checksum data =
            pack_H (sum_list (words_of (take (2 * (n div 2)) payload)) AND 0xFFFF)"
      unfolding packet_checksum_def Let_def len ws md sl un
      by (simp add: m0)
    also have "\<dots> = pack_H (word_sum payload mod 65536)"
      using False by (simp add: and_0xFFFF word_sum_split [of payload] lp)
    finally show ?thesis
      by (simp only: payload_def n_def)
  qed
qed

text \<open>
  C2. For every buffer of at least two bytes \<open>packet_checksum\<close> does not raise and
  returns two bytes, the high and the low byte of the sum modulo \<open>2 ^ 16\<close> of the
  big-endian 16-bit words of the buffer without its last two bytes, an odd last byte
  counting as the high byte of one more word (\<open>word_sum\<close>). In particular the payload
  \<open>00 01 00 02\<close> followed by any two bytes gives \<open>00 03\<close>.
\<close>

theorem packet_checksum_word_sum:
  "(2 \<le> length data \<longrightarrow>
      packet_checksum data =
        Inr [word_of_int (word_sum (take (length data - 2) data) mod 65536 div 256),
             word_of_int (word_sum (take (length data - 2) data) mod 65536 mod 256)]) \<and>
   packet_checksum [0x00, 0x01, 0x00, 0x02, p, q] = Inr [0x00, 0x03]"
proof
  show "2 \<le> length data \<longrightarrow>
      packet_checksum data =
        Inr [word_of_int (word_sum (take (length data - 2) data) mod 65536 div 256),
             word_of_int (word_sum (take (length data - 2) data) mod 65536 mod 256)]"
    by (simp add: packet_checksum_payload pack_H_mod)
next
  have "packet_checksum [0x00, 0x01, 0x00, 0x02, p, q] =
          pack_H (word_sum (take (length [0x00, 0x01, 0x00, 0x02, p, q] - 2)
                              [0x00, 0x01, 0x00, 0x02, p, q]) mod 65536)"
    by (rule packet_checksum_payload) simp
  also have "\<dots> = pack_H 3"
    by simp
  also have "\<dots> = Inr [0x00, 0x03]"
    by (simp add: pack_H_def)
  finally show "packet_checksum [0x00, 0x01, 0x00, 0x02, p, q] = Inr [0x00, 0x03]" .
qed

theorem packet_checksum_word_sum_witness:
  "packet_checksum [0x12, 0x34, 0x56, 0xAA, 0xBB] = Inr [0x68, 0x34] \<and>
   packet_checksum [0xFF, 0xFF, 0x00, 0x02, 0x00, 0x00] = Inr [0x00, 0x01]"
  using packet_checksum_word_sum [of "[0x12, 0x34, 0x56, 0xAA, 0xBB]"]
        packet_checksum_word_sum [of "[0xFF, 0xFF, 0x00, 0x02, 0x00, 0x00]"]
  by simp

text \<open>
  C10. Two buffers of the same length, at least 2, that agree on all bytes but the last
  two have the same checksum: the two trailing bytes never reach the result.
\<close>

theorem packet_checksum_ignores_trailer:
  assumes "length a = length b" and "2 \<le> length a"
    and "take (length a - 2) a = take (length b - 2) b"
  shows "packet_checksum a = packet_checksum b"
proof -
  have "packet_checksum a = pack_H (word_sum (take (length a - 2) a) mod 65536)"
    using assms(2) by (rule packet_checksum_payload)
  also have "\<dots> = pack_H (word_sum (take (length b - 2) b) mod 65536)"
    by (simp only: assms(3))
  also have "\<dots> = packet_checksum b"
    using assms(1) assms(2) by (simp add: packet_checksum_payload)
  finally show ?thesis .
qed

theorem packet_checksum_ignores_trailer_witness:
  "packet_checksum [0x01, 0x02, 0x03, 0x04, 0x05] = packet_checksum [0x01, 0x02, 0x03, 0xFE, 0xFF]"
  using packet_checksum_ignores_trailer
          [of "[0x01, 0x02, 0x03, 0x04, 0x05]" "[0x01, 0x02, 0x03, 0xFE, 0xFF]"]
  by simp

subsection \<open>Facts about hex strings\<close>

lemma isalnum_not_space: "isalnum c \<Longrightarrow> \<not> is_space c"
  by (auto simp: isalnum_def is_space_def Let_def)

lemma fromhex_no_space:
  "\<forall>c\<in>set t. \<not> is_space c \<Longrightarrow>
   fromhex t =
     (if odd (length t) \<or> (\<exists>c\<in>set t. hex_digit_value c = None) then Inl ValueError
      else Inr (hex_pairs t))"
proof (induction t rule: fromhex.induct)
  case 1
  show ?case by simp
next
  case (2 c)
  then show ?case by simp
next
  case (3 c d cs)
  have nsc: "\<not> is_space c" and rest: "\<forall>x\<in>set cs. \<not> is_space x"
    using "3.prems" by simp_all
  show ?case
  proof (cases "hex_digit_value c")
    case None
    then show ?thesis using nsc by simp
  next
    case hi: (Some h)
    show ?thesis
    proof (cases "hex_digit_value d")
      case None
      then show ?thesis using nsc hi by simp
    next
      case lo: (Some l)
      have "fromhex cs =
        (if odd (length cs) \<or> (\<exists>c\<in>set cs. hex_digit_value c = None) then Inl ValueError
         else Inr (hex_pairs cs))"
        using "3.IH"(2) [OF nsc hi lo rest] .
      then show ?thesis
        using nsc hi lo by (simp add: hex_digit_def)
    qed
  qed
qed

text \<open>
  C9. \<open>hexstr_to_bytes\<close> drops every character that is not alphanumeric and reads what
  remains as pairs of hexadecimal digits. It raises ValueError exactly when the number of
  remaining characters is odd or one of them is not a hexadecimal digit, and returns the
  bytes of the pairs otherwise. In particular \<open>AB CD-EF\<close> gives the bytes that
  \<open>bytes_to_hexstr\<close>, with no prefix and a single space as separator, prints as
  \<open>AB CD EF\<close>.
\<close>

theorem hexstr_to_bytes_spec:
  "hexstr_to_bytes s =
     (if odd (length (filter isalnum s)) \<or>
         (\<exists>c\<in>set (filter isalnum s). hex_digit_value c = None)
      then Inl ValueError
      else Inr (hex_pairs (filter isalnum s))) \<and>
   (\<exists>bs. hexstr_to_bytes ''AB CD-EF'' = Inr bs \<and>
         bytes_to_hexstr bs '''' '' '' = ''AB CD EF'')"
proof
  have "\<forall>c\<in>set (filter isalnum s). \<not> is_space c"
    by (simp add: isalnum_not_space)
  then show "hexstr_to_bytes s =
     (if odd (length (filter isalnum s)) \<or>
         (\<exists>c\<in>set (filter isalnum s). hex_digit_value c = None)
      then Inl ValueError
      else Inr (hex_pairs (filter isalnum s)))"
    unfolding hexstr_to_bytes_def by (rule fromhex_no_space)
next
  have a: "hexstr_to_bytes ''AB CD-EF'' = Inr [0xAB, 0xCD, 0xEF]"
    by code_simp
  have b: "bytes_to_hexstr [0xAB, 0xCD, 0xEF] '''' '' '' = ''AB CD EF''"
    by code_simp
  show "\<exists>bs. hexstr_to_bytes ''AB CD-EF'' = Inr bs \<and>
         bytes_to_hexstr bs '''' '' '' = ''AB CD EF''"
    using a b by blast
qed

theorem hexstr_to_bytes_spec_witness:
  "hexstr_to_bytes ''0a-1F 7'' = Inl ValueError \<and>
   hexstr_to_bytes ''0a:1G'' = Inl ValueError \<and>
   hexstr_to_bytes ''0a 1F-7e'' = Inr [0x0A, 0x1F, 0x7E]"
proof -
  have f1: "filter isalnum ''0a-1F 7'' = ''0a1F7''"
    and f2: "filter isalnum ''0a:1G'' = ''0a1G''"
    and f3: "filter isalnum ''0a 1F-7e'' = ''0a1F7e''"
    by code_simp+
  have g: "hex_digit_value CHR ''G'' = None"
    by code_simp
  have h3: "\<forall>c\<in>set ''0a1F7e''. hex_digit_value c \<noteq> None"
    by code_simp
  have p3: "hex_pairs ''0a1F7e'' = [0x0A, 0x1F, 0x7E]"
    by code_simp
  have "hexstr_to_bytes ''0a-1F 7'' = Inl ValueError"
    using conjunct1 [OF hexstr_to_bytes_spec [of "''0a-1F 7''"], unfolded f1] by simp
  moreover have "hexstr_to_bytes ''0a:1G'' = Inl ValueError"
    using conjunct1 [OF hexstr_to_bytes_spec [of "''0a:1G''"], unfolded f2] by (simp add: g)
  moreover have "hexstr_to_bytes ''0a 1F-7e'' = Inr [0x0A, 0x1F, 0x7E]"
    using conjunct1 [OF hexstr_to_bytes_spec [of "''0a 1F-7e''"], unfolded f3 p3] h3 by simp
  ultimately show ?thesis by simp
qed

end
